theory Spec2Isabelle
  imports Main "HOL-Library.Word"
begin

unbundle bit_operations_syntax

section \<open>Data model of morse.h\<close>

text \<open>
  \<^verbatim>\<open>unsigned char\<close> is an 8-bit word and \<^verbatim>\<open>size_t\<close> a 64-bit word.  A C array is
  the list of its bytes; a read or write outside the list is a memory fault, which the
  model reports as a value instead of leaving it unspecified.
\<close>

type_synonym uchar = "8 word"
type_synonym size_t = "64 word"

datatype fault = InputOutOfBounds | TableOutOfBounds | BufferOutOfBounds | AssertionFailed

definition MORSE_DOT :: uchar where
  "MORSE_DOT = of_char CHR ''.''"

definition MORSE_DASH :: uchar where
  "MORSE_DASH = of_char CHR ''-''"

definition STAR :: uchar where
  "STAR = of_char CHR ''*''"

definition QUERY :: uchar where
  "QUERY = of_char CHR ''?''"

text \<open>
  The string literal \<^verbatim>\<open>MORSE_CODEC\<close> as C stores it: its characters followed by
  the terminating NUL, so that \<^verbatim>\<open>sizeof(MORSE_CODEC)\<close> is the length of this list.
\<close>

definition MORSE_CODEC :: "uchar list" where
  "MORSE_CODEC = map of_char ''**ETIANMSURWDKGOHVF?L?PJBXCYZQ??'' @ [0]"

definition MORSE_CODEC_LENGTH :: size_t where
  "MORSE_CODEC_LENGTH = of_nat (length MORSE_CODEC) - 1"

definition SIZE_MAX :: size_t where
  "SIZE_MAX = - 1"

text \<open>\<^verbatim>\<open>MORSE_CODEC[n]\<close>\<close>

definition codec_read :: "size_t \<Rightarrow> fault + uchar" where
  "codec_read n =
     (if unat n < length MORSE_CODEC then Inr (MORSE_CODEC ! unat n)
      else Inl TableOutOfBounds)"

text \<open>\<^verbatim>\<open>isupper\<close> in the C locale: the letters A to Z.\<close>

definition isupper :: "uchar \<Rightarrow> bool" where
  "isupper c \<longleftrightarrow> of_char CHR ''A'' \<le> c \<and> c \<le> of_char CHR ''Z''"

section \<open>morse_decode\<close>

text \<open>
  The loop of \<^verbatim>\<open>morse_decode\<close>.  The list is the memory from \<^verbatim>\<open>in + j\<close> on, so
  \<^verbatim>\<open>in[j]\<close> is its head and \<^verbatim>\<open>j++\<close> its tail; reading where the memory has ended
  is a fault.  The result is the C \<^verbatim>\<open>int\<close> returned: \<open>-1\<close>, or the value of \<^verbatim>\<open>out\<close>.
\<close>

fun decode_loop :: "size_t \<Rightarrow> uchar list \<Rightarrow> fault + int" where
  "decode_loop n inp =
     (if n < MORSE_CODEC_LENGTH then
        (case inp of
           [] \<Rightarrow> Inl InputOutOfBounds
         | ch # rest \<Rightarrow>
             if ch = MORSE_DOT then decode_loop (push_bit 1 n) rest
             else if ch = MORSE_DASH then decode_loop (push_bit 1 n + 1) rest
             else if ch = 0 then
               (if n > MORSE_CODEC_LENGTH then Inr (uint QUERY)
                else (case codec_read n of
                        Inl f \<Rightarrow> Inl f
                      | Inr c \<Rightarrow> Inr (uint c)))
             else Inr (- 1))
      else Inr (uint QUERY))"

declare decode_loop.simps [simp del]

definition morse_decode :: "uchar list \<Rightarrow> fault + int" where
  "morse_decode inp = decode_loop 1 inp"

text \<open>
  The same loop, returning with its result the indices at which it evaluates
  \<^verbatim>\<open>MORSE_CODEC[n]\<close>, in the order of the reads.
\<close>

fun decode_loop_reads :: "size_t \<Rightarrow> uchar list \<Rightarrow> (fault + int) \<times> size_t list" where
  "decode_loop_reads n inp =
     (if n < MORSE_CODEC_LENGTH then
        (case inp of
           [] \<Rightarrow> (Inl InputOutOfBounds, [])
         | ch # rest \<Rightarrow>
             if ch = MORSE_DOT then decode_loop_reads (push_bit 1 n) rest
             else if ch = MORSE_DASH then decode_loop_reads (push_bit 1 n + 1) rest
             else if ch = 0 then
               (if n > MORSE_CODEC_LENGTH then (Inr (uint QUERY), [])
                else (case codec_read n of
                        Inl f \<Rightarrow> (Inl f, [n])
                      | Inr c \<Rightarrow> (Inr (uint c), [n])))
             else (Inr (- 1), []))
      else (Inr (uint QUERY), []))"

declare decode_loop_reads.simps [simp del]

section \<open>morse_encode\<close>

text \<open>\<^verbatim>\<open>r[i]\<close> and \<^verbatim>\<open>r[i] = v\<close> on a caller's buffer.\<close>

definition buf_read :: "uchar list \<Rightarrow> size_t \<Rightarrow> fault + uchar" where
  "buf_read r i =
     (if unat i < length r then Inr (r ! unat i) else Inl BufferOutOfBounds)"

definition buf_write :: "uchar list \<Rightarrow> size_t \<Rightarrow> uchar \<Rightarrow> fault + uchar list" where
  "buf_write r i v =
     (if unat i < length r then Inr (r[unat i := v]) else Inl BufferOutOfBounds)"

text \<open>\<^verbatim>\<open>for (i = 0; i < 6; i++) out[i] = 0;\<close>\<close>

function clear_loop :: "size_t \<Rightarrow> uchar list \<Rightarrow> fault + uchar list" where
  "clear_loop i out =
     (if i < 6 then
        (case buf_write out i 0 of
           Inl f \<Rightarrow> Inl f
         | Inr out' \<Rightarrow> clear_loop (i + 1) out')
      else Inr out)"
  by pat_completeness auto
termination
proof (relation "measure (\<lambda>(i, out). 6 - unat i)")
  show "wf (measure (\<lambda>(i :: size_t, out :: uchar list). 6 - unat i))"
    by simp
next
  fix i :: size_t and out x :: "uchar list"
  assume "i < 6"
  then have "unat i < 6"
    by (simp add: word_less_nat_alt)
  then have "unat (i + 1) = unat i + 1"
    by (simp add: unat_word_ariths)
  with \<open>unat i < 6\<close>
  show "((i + 1, x), (i, out)) \<in> measure (\<lambda>(i, out). 6 - unat i)"
    by simp
qed

text \<open>
  The table scan; the result is the value of \<^verbatim>\<open>pos\<close> after the loop, which the
  \<^verbatim>\<open>break\<close> leaves at the first matching index.
\<close>

function find_loop :: "uchar \<Rightarrow> size_t \<Rightarrow> size_t \<Rightarrow> fault + size_t" where
  "find_loop c i pos =
     (if i < MORSE_CODEC_LENGTH then
        (case codec_read i of
           Inl f \<Rightarrow> Inl f
         | Inr e \<Rightarrow> if e = c then Inr i else find_loop c (i + 1) pos)
      else Inr pos)"
  by pat_completeness auto
termination
proof (relation "measure (\<lambda>(c, i, pos). 32 - unat i)")
  show "wf (measure (\<lambda>(c :: uchar, i :: size_t, pos :: size_t). 32 - unat i))"
    by simp
next
  fix c e :: uchar and i pos :: size_t
  assume "i < MORSE_CODEC_LENGTH"
  then have "unat i < 32"
    by (simp add: word_less_nat_alt MORSE_CODEC_LENGTH_def MORSE_CODEC_def)
  then have "unat (i + 1) = unat i + 1"
    by (simp add: unat_word_ariths)
  with \<open>unat i < 32\<close>
  show "((c, i + 1, pos), (c, i, pos)) \<in> measure (\<lambda>(c, i, pos). 32 - unat i)"
    by simp
qed

text \<open>
  \<^verbatim>\<open>for (i = 0; pos/2; i++) { out[i] = (pos & 1) ? MORSE_DASH : MORSE_DOT; pos /= 2; }\<close>
  The result is the final \<^verbatim>\<open>i\<close> with the buffer.
\<close>

function symbol_loop :: "size_t \<Rightarrow> size_t \<Rightarrow> uchar list \<Rightarrow> fault + (size_t \<times> uchar list)" where
  "symbol_loop pos i out =
     (if pos div 2 \<noteq> 0 then
        (case buf_write out i (if pos AND 1 \<noteq> 0 then MORSE_DASH else MORSE_DOT) of
           Inl f \<Rightarrow> Inl f
         | Inr out' \<Rightarrow> symbol_loop (pos div 2) (i + 1) out')
      else Inr (i, out))"
  by pat_completeness auto
termination
proof (relation "measure (\<lambda>(pos, i, out). unat pos)")
  show "wf (measure (\<lambda>(pos :: size_t, i :: size_t, out :: uchar list). unat pos))"
    by simp
next
  fix pos i :: size_t and out x :: "uchar list"
  assume "pos div 2 \<noteq> 0"
  then have "unat (pos div 2) \<noteq> 0"
    by (simp add: unat_eq_0)
  then have "unat pos div 2 \<noteq> 0"
    by (simp add: unat_div)
  then have "unat pos div 2 < unat pos"
    by simp
  then show "((pos div 2, i + 1, x), (pos, i, out)) \<in> measure (\<lambda>(pos, i, out). unat pos)"
    by (simp add: unat_div)
qed

text \<open>The loop of \<^verbatim>\<open>morse_reverse_char_array\<close>, with \<open>len\<close> for \<^verbatim>\<open>length\<close>
  and \<open>last'\<close> for \<^verbatim>\<open>last\<close>.\<close>

function reverse_loop :: "size_t \<Rightarrow> size_t \<Rightarrow> size_t \<Rightarrow> uchar list \<Rightarrow> fault + uchar list" where
  "reverse_loop len last' i r =
     (if i < len div 2 then
        (case buf_read r i of
           Inl f \<Rightarrow> Inl f
         | Inr t \<Rightarrow>
             (case buf_read r (last' - i) of
                Inl f \<Rightarrow> Inl f
              | Inr v \<Rightarrow>
                  (case buf_write r i v of
                     Inl f \<Rightarrow> Inl f
                   | Inr r1 \<Rightarrow>
                       (case buf_write r1 (last' - i) t of
                          Inl f \<Rightarrow> Inl f
                        | Inr r2 \<Rightarrow> reverse_loop len last' (i + 1) r2))))
      else Inr r)"
  by pat_completeness auto
termination
proof (relation "measure (\<lambda>(len, last', i, r). unat (len div 2) - unat i)")
  show "wf (measure (\<lambda>(len :: size_t, last' :: size_t, i :: size_t, r :: uchar list).
              unat (len div 2) - unat i))"
    by simp
next
  fix len last' i :: size_t and r r2 :: "uchar list"
  assume "i < len div 2"
  then have lt: "unat i < unat (len div 2)"
    by (simp add: word_less_nat_alt)
  have "unat (len div 2) < 2 ^ 64"
    using unsigned_less [of "len div 2"] by simp
  with lt have "unat i + 1 < 2 ^ 64"
    by linarith
  then have "unat (i + 1) = unat i + 1"
    by (simp add: unat_word_ariths)
  with lt
  show "((len, last', i + 1, r2), (len, last', i, r))
          \<in> measure (\<lambda>(len, last', i, r). unat (len div 2) - unat i)"
    by simp
qed

definition morse_reverse_char_array :: "uchar list \<Rightarrow> size_t \<Rightarrow> fault + uchar list" where
  "morse_reverse_char_array r len = reverse_loop len (len - 1) 0 r"

text \<open>
  \<^verbatim>\<open>morse_encode\<close> takes the caller's buffer and returns the C result with the
  buffer as it leaves it.
\<close>

definition morse_encode :: "uchar \<Rightarrow> uchar list \<Rightarrow> fault + (int \<times> uchar list)" where
  "morse_encode c out =
     (case clear_loop 0 out of
        Inl f \<Rightarrow> Inl f
      | Inr out0 \<Rightarrow>
          (case find_loop c 0 SIZE_MAX of
             Inl f \<Rightarrow> Inl f
           | Inr pos \<Rightarrow>
               if pos = SIZE_MAX then Inr (- 1, out0)
               else
                 (case codec_read pos of
                    Inl f \<Rightarrow> Inl f
                  | Inr e \<Rightarrow>
                      if e = STAR \<or> e = QUERY then Inr (- 1, out0)
                      else
                        (case symbol_loop pos 0 out0 of
                           Inl f \<Rightarrow> Inl f
                         | Inr (i, out1) \<Rightarrow>
                             (case morse_reverse_char_array out1 i of
                                Inl f \<Rightarrow> Inl f
                              | Inr out2 \<Rightarrow> Inr (0, out2))))))"

section \<open>morse_tests\<close>

text \<open>
  The loop variable \<^verbatim>\<open>ch\<close> is a C \<^verbatim>\<open>int\<close> that stays between 65 and 91; the
  buffer starts as \<^verbatim>\<open>{ 0, }\<close>.
\<close>

function tests_loop :: "int \<Rightarrow> fault + int" where
  "tests_loop ch =
     (if ch \<le> 0x5A then
        (case morse_encode (of_int ch) (replicate 6 0) of
           Inl f \<Rightarrow> Inl f
         | Inr (e, buf) \<Rightarrow>
             if e < 0 then Inr (- 1)
             else
               (case morse_decode buf of
                  Inl f \<Rightarrow> Inl f
                | Inr r \<Rightarrow>
                    if r < 0 then Inr (- 2)
                    else if r \<noteq> ch then Inr (- ch)
                    else tests_loop (ch + 1)))
      else Inr 0)"
  by pat_completeness auto
termination
  by (relation "measure (\<lambda>ch. nat (0x5B - ch))") auto

definition morse_tests :: "fault + int" where
  "morse_tests = tests_loop 0x41"

section \<open>The command line\<close>

text \<open>
  \<^verbatim>\<open>stdout\<close> is the bytes written so far and whether the stream has failed; a
  failed stream refuses every write.  \<^verbatim>\<open>fprintf\<close> takes the bytes the format
  expands to and returns what C returns: their number, or a negative value.
\<close>

record stream =
  written :: "uchar list"
  failed :: bool

definition fprintf :: "stream \<Rightarrow> uchar list \<Rightarrow> int \<times> stream" where
  "fprintf s bytes =
     (if failed s then (- 1, s)
      else (int (length bytes), s\<lparr>written := written s @ bytes\<rparr>))"

text \<open>The bytes \<^verbatim>\<open>%s\<close> prints from a buffer: those before its first NUL.\<close>

definition c_string :: "uchar list \<Rightarrow> fault + uchar list" where
  "c_string buf =
     (if 0 \<in> set buf then Inr (takeWhile (\<lambda>b. b \<noteq> 0) buf)
      else Inl BufferOutOfBounds)"

text \<open>\<^verbatim>\<open>toupper\<close> in the C locale.\<close>

definition toupper :: "uchar \<Rightarrow> uchar" where
  "toupper c =
     (if of_char CHR ''a'' \<le> c \<and> c \<le> of_char CHR ''z'' then c - 32 else c)"

text \<open>
  The decode branch of \<^verbatim>\<open>main\<close>, over the operands \<^verbatim>\<open>argv[2..]\<close>.  An operand is
  the bytes of a C string, so \<^verbatim>\<open>morse_decode\<close> reads them followed by the NUL;
  \<^verbatim>\<open>%c\<close> converts its \<^verbatim>\<open>int\<close> argument to \<^verbatim>\<open>unsigned char\<close>.
\<close>

fun decode_operands :: "uchar list list \<Rightarrow> stream \<Rightarrow> fault + (int \<times> stream)" where
  "decode_operands [] out =
     (case fprintf out [0x0A] of
        (r, out') \<Rightarrow> if r < 0 then Inr (5, out') else Inr (0, out'))"
| "decode_operands (a # as) out =
     (case morse_decode (a @ [0]) of
        Inl f \<Rightarrow> Inl f
      | Inr v \<Rightarrow>
          (case fprintf out [of_int v] of
             (r, out') \<Rightarrow> if r < 0 then Inr (4, out') else decode_operands as out'))"

text \<open>
  The encode branch: the inner loop over the characters of one operand returns the
  exit status when it leaves \<^verbatim>\<open>main\<close>, and \<open>None\<close> when it runs to the end.
\<close>

fun encode_chars :: "uchar list \<Rightarrow> stream \<Rightarrow> fault + (int option \<times> stream)" where
  "encode_chars [] out = Inr (None, out)"
| "encode_chars (c # cs) out =
     (case morse_encode (toupper c) (replicate 6 0) of
        Inl f \<Rightarrow> Inl f
      | Inr (e, buf) \<Rightarrow>
          if e < 0 then Inr (Some 6, out)
          else
            (case c_string buf of
               Inl f \<Rightarrow> Inl f
             | Inr s \<Rightarrow>
                 (case fprintf out (s @ [0x20]) of
                    (r, out') \<Rightarrow>
                      if r < 0 then Inr (Some 7, out') else encode_chars cs out')))"

fun encode_operands :: "uchar list list \<Rightarrow> stream \<Rightarrow> fault + (int \<times> stream)" where
  "encode_operands [] out = Inr (0, out)"
| "encode_operands (a # as) out =
     (case encode_chars a out of
        Inl f \<Rightarrow> Inl f
      | Inr (Some status, out') \<Rightarrow> Inr (status, out')
      | Inr (None, out') \<Rightarrow>
          (case fprintf out' [0x0A] of
             (r, out'') \<Rightarrow> if r < 0 then Inr (8, out'') else encode_operands as out''))"

text \<open>
  \<^verbatim>\<open>main\<close>: the exit status and \<^verbatim>\<open>stdout\<close>.  \<^verbatim>\<open>morse_usage\<close> writes to
  \<^verbatim>\<open>stderr\<close> only and its result is discarded, so all it leaves here is its
  \<^verbatim>\<open>assert(arg0)\<close>, which fails when \<^verbatim>\<open>argc\<close> is 0 and \<^verbatim>\<open>argv[0]\<close> is NULL.
\<close>

definition main :: "uchar list list \<Rightarrow> stream \<Rightarrow> fault + (int \<times> stream)" where
  "main argv out =
     (case morse_tests of
        Inl f \<Rightarrow> Inl f
      | Inr t \<Rightarrow>
          if t < 0 then Inr (1, out)
          else if length argv < 2 then
            (if argv = [] then Inl AssertionFailed else Inr (2, out))
          else
            (let decode = (- 1 :: int);
                 decode = (if argv ! 1 = map of_char ''encode'' then 0 else decode);
                 decode = (if argv ! 1 = map of_char ''decode'' then 1 else decode)
             in if decode < 0 then Inr (3, out)
                else if decode \<noteq> 0 then decode_operands (drop 2 argv) out
                else encode_operands (drop 2 argv) out))"

declare clear_loop.simps [simp del] find_loop.simps [simp del]
  symbol_loop.simps [simp del] reverse_loop.simps [simp del] tests_loop.simps [simp del]

section \<open>Facts about the constants\<close>

lemma MORSE_CODEC_bytes:
  "MORSE_CODEC =
     [0x2A, 0x2A, 0x45, 0x54, 0x49, 0x41, 0x4E, 0x4D,
      0x53, 0x55, 0x52, 0x57, 0x44, 0x4B, 0x47, 0x4F,
      0x48, 0x56, 0x46, 0x3F, 0x4C, 0x3F, 0x50, 0x4A,
      0x42, 0x58, 0x43, 0x59, 0x5A, 0x51, 0x3F, 0x3F, 0]"
  by (simp add: MORSE_CODEC_def)

lemma MORSE_CODEC_LENGTH_32: "MORSE_CODEC_LENGTH = 32"
  by (simp add: MORSE_CODEC_LENGTH_def MORSE_CODEC_def)

lemma symbol_bytes:
  "MORSE_DOT = 0x2E" "MORSE_DASH = 0x2D" "STAR = 0x2A" "QUERY = 0x3F"
  by (simp_all add: MORSE_DOT_def MORSE_DASH_def STAR_def QUERY_def)

lemma replicate6: "replicate 6 x = [x, x, x, x, x, x]"
  by (simp add: numeral_eq_Suc)

lemma lt32: "(n :: size_t) < 32 \<longleftrightarrow> unat n < 32"
  by (simp add: word_less_nat_alt)

lemma codec_read_ok:
  "n < MORSE_CODEC_LENGTH \<Longrightarrow> codec_read n = Inr (MORSE_CODEC ! unat n)"
  by (simp add: codec_read_def MORSE_CODEC_LENGTH_32 lt32 MORSE_CODEC_bytes)

lemma table_entries:
  "list_all (\<lambda>e. e = STAR \<or> e = QUERY \<or> isupper e) (take 32 MORSE_CODEC)"
  by (simp add: MORSE_CODEC_bytes symbol_bytes isupper_def)

lemma table_entry:
  assumes "r < MORSE_CODEC_LENGTH"
  shows "MORSE_CODEC ! unat r = STAR \<or> MORSE_CODEC ! unat r = QUERY
           \<or> isupper (MORSE_CODEC ! unat r)"
proof -
  from assms have u: "unat r < 32"
    by (simp add: MORSE_CODEC_LENGTH_32 lt32)
  have "length (take 32 MORSE_CODEC) = 32"
    by (simp add: MORSE_CODEC_bytes)
  with u table_entries
  have "(\<lambda>e. e = STAR \<or> e = QUERY \<or> isupper e) (take 32 MORSE_CODEC ! unat r)"
    by (simp only: list_all_length)
  with u show ?thesis by simp
qed

lemma isupper_cases:
  assumes "isupper c"
  shows "c \<in> {0x41, 0x42, 0x43, 0x44, 0x45, 0x46, 0x47, 0x48, 0x49, 0x4A, 0x4B, 0x4C, 0x4D,
              0x4E, 0x4F, 0x50, 0x51, 0x52, 0x53, 0x54, 0x55, 0x56, 0x57, 0x58, 0x59, 0x5A}"
proof -
  obtain n where c: "c = word_of_nat n" and "n < 2 ^ LENGTH(8)"
    by (cases c rule: word_nat_cases)
  then have n: "n < 256" by simp
  with assms c have "65 \<le> n \<and> n \<le> 90"
    by (simp add: isupper_def word_le_nat_alt unat_of_nat take_bit_nat_eq_self)
  then have "n \<in> {0x41, 0x42, 0x43, 0x44, 0x45, 0x46, 0x47, 0x48, 0x49, 0x4A, 0x4B, 0x4C,
                   0x4D, 0x4E, 0x4F, 0x50, 0x51, 0x52, 0x53, 0x54, 0x55, 0x56, 0x57, 0x58,
                   0x59, 0x5A}"
    by simp presburger
  with c show ?thesis by auto
qed

section \<open>Facts about the decode loop\<close>

lemma unat_dot: "unat (n :: size_t) < 32 \<Longrightarrow> unat (push_bit 1 n) = 2 * unat n"
  by (simp add: unat_word_ariths push_bit_eq_mult)

lemma unat_dash: "unat (n :: size_t) < 32 \<Longrightarrow> unat (push_bit 1 n + 1) = 2 * unat n + 1"
  by (simp add: unat_word_ariths push_bit_eq_mult)

lemma decode_loop_overflow:
  "\<not> n < MORSE_CODEC_LENGTH \<Longrightarrow> decode_loop n inp = Inr (uint QUERY)"
  by (simp add: decode_loop.simps)

lemma decode_loop_dot:
  "n < MORSE_CODEC_LENGTH \<Longrightarrow>
   decode_loop n (MORSE_DOT # rest) = decode_loop (push_bit 1 n) rest"
  by (subst decode_loop.simps) simp

lemma decode_loop_dash:
  "n < MORSE_CODEC_LENGTH \<Longrightarrow>
   decode_loop n (MORSE_DASH # rest) = decode_loop (push_bit 1 n + 1) rest"
  by (subst decode_loop.simps) (simp add: symbol_bytes)

lemma decode_loop_end:
  "n < MORSE_CODEC_LENGTH \<Longrightarrow>
   decode_loop n (0 # rest) = Inr (uint (MORSE_CODEC ! unat n))"
  by (subst decode_loop.simps)
    (simp add: symbol_bytes codec_read_ok, simp add: MORSE_CODEC_LENGTH_32 word_less_nat_alt)

lemma decode_loop_bad:
  "n < MORSE_CODEC_LENGTH \<Longrightarrow> ch \<noteq> MORSE_DOT \<Longrightarrow> ch \<noteq> MORSE_DASH \<Longrightarrow> ch \<noteq> 0 \<Longrightarrow>
   decode_loop n (ch # rest) = Inr (- 1)"
  by (subst decode_loop.simps) simp

lemma dots5:
  "decode_loop 1 (MORSE_DOT # MORSE_DOT # MORSE_DOT # MORSE_DOT # MORSE_DOT # rest)
     = Inr (uint QUERY)"
  by (simp add: decode_loop_dot decode_loop_overflow MORSE_CODEC_LENGTH_32)

text \<open>
  A byte that is no symbol is reached, and rejected, when every index the walk passes
  through is below the table length.
\<close>

lemma decode_loop_rejects:
  "(unat n + 1) * 2 ^ length pre \<le> 32 \<Longrightarrow> set pre \<subseteq> {MORSE_DOT, MORSE_DASH} \<Longrightarrow>
   b \<noteq> MORSE_DOT \<Longrightarrow> b \<noteq> MORSE_DASH \<Longrightarrow> b \<noteq> 0 \<Longrightarrow>
   decode_loop n (pre @ b # rest) = Inr (- 1)"
proof (induction pre arbitrary: n)
  case Nil
  then have "n < MORSE_CODEC_LENGTH"
    by (simp add: MORSE_CODEC_LENGTH_32 lt32)
  with Nil show ?case
    by (simp add: decode_loop_bad)
next
  case (Cons s pre)
  from Cons.prems(1) have b: "2 * ((unat n + 1) * 2 ^ length pre) \<le> 32"
    by (simp add: mult.assoc mult.left_commute)
  have "(unat n + 1) * 1 \<le> (unat n + 1) * 2 ^ length pre"
    by (rule mult_le_mono2) simp
  then have "unat n + 1 \<le> (unat n + 1) * 2 ^ length pre"
    by (simp only: mult_1_right)
  with b have "unat n < 16"
    by linarith
  then have lt: "n < MORSE_CODEC_LENGTH" and u: "unat n < 32"
    by (simp_all add: MORSE_CODEC_LENGTH_32 lt32)
  from Cons.prems(2) have sub: "set pre \<subseteq> {MORSE_DOT, MORSE_DASH}"
    and s: "s = MORSE_DOT \<or> s = MORSE_DASH"
    by auto
  have step: "m + 1 \<le> 2 * (unat n + 1) \<Longrightarrow> (m + 1) * 2 ^ length pre \<le> 32" for m :: nat
  proof -
    assume "m + 1 \<le> 2 * (unat n + 1)"
    then have "(m + 1) * 2 ^ length pre \<le> (2 * (unat n + 1)) * 2 ^ length pre"
      by (rule mult_le_mono1)
    also have "\<dots> = 2 * ((unat n + 1) * 2 ^ length pre)"
      by (rule mult.assoc)
    finally show ?thesis using b by linarith
  qed
  from s show ?case
  proof
    assume sd: "s = MORSE_DOT"
    have "unat (push_bit 1 n) + 1 \<le> 2 * (unat n + 1)"
      unfolding unat_dot [OF u] by simp
    from Cons.IH [OF step [OF this] sub Cons.prems(3,4,5)] show ?thesis
      by (simp only: sd append_Cons decode_loop_dot [OF lt])
  next
    assume sd: "s = MORSE_DASH"
    have "unat (push_bit 1 n + 1) + 1 \<le> 2 * (unat n + 1)"
      unfolding unat_dash [OF u] by simp
    from Cons.IH [OF step [OF this] sub Cons.prems(3,4,5)] show ?thesis
      by (simp only: sd append_Cons decode_loop_dash [OF lt])
  qed
qed

text \<open>
  Once the symbols read so far push the index to the table length or beyond, the loop
  guard ends the scan and nothing after them is looked at.
\<close>

lemma decode_loop_leaves_table:
  "32 \<le> unat n * 2 ^ length pre \<Longrightarrow> set pre \<subseteq> {MORSE_DOT, MORSE_DASH} \<Longrightarrow>
   decode_loop n (pre @ rest) = Inr (uint QUERY)"
proof (induction pre arbitrary: n)
  case Nil
  then have "\<not> n < MORSE_CODEC_LENGTH"
    by (simp add: MORSE_CODEC_LENGTH_32 lt32)
  then show ?case
    by (simp add: decode_loop_overflow)
next
  case (Cons s pre)
  show ?case
  proof (cases "n < MORSE_CODEC_LENGTH")
    case False
    then show ?thesis
      by (simp add: decode_loop_overflow)
  next
    case True
    then have u: "unat n < 32"
      by (simp add: MORSE_CODEC_LENGTH_32 lt32)
    from Cons.prems(1) have b: "32 \<le> (2 * unat n) * 2 ^ length pre"
      by (simp add: mult.assoc mult.left_commute)
    from Cons.prems(2) have sub: "set pre \<subseteq> {MORSE_DOT, MORSE_DASH}"
      and s: "s = MORSE_DOT \<or> s = MORSE_DASH"
      by auto
    from s show ?thesis
    proof
      assume sd: "s = MORSE_DOT"
      from b have "32 \<le> unat (push_bit 1 n) * 2 ^ length pre"
        unfolding unat_dot [OF u] .
      from Cons.IH [OF this sub] show ?thesis
        by (simp only: sd append_Cons decode_loop_dot [OF True])
    next
      assume sd: "s = MORSE_DASH"
      have "(2 * unat n) * 2 ^ length pre \<le> (2 * unat n + 1) * 2 ^ length pre"
        by (rule mult_le_mono1) simp
      with b have "32 \<le> unat (push_bit 1 n + 1) * 2 ^ length pre"
        unfolding unat_dash [OF u] by linarith
      from Cons.IH [OF this sub] show ?thesis
        by (simp only: sd append_Cons decode_loop_dash [OF True])
    qed
  qed
qed

lemma decode_loop_no_table_fault: "decode_loop n inp \<noteq> Inl TableOutOfBounds"
proof (induction inp arbitrary: n)
  case Nil
  show ?case
    by (subst decode_loop.simps) simp
next
  case (Cons ch rest)
  show ?case
  proof (cases "n < MORSE_CODEC_LENGTH")
    case False
    then show ?thesis
      by (simp add: decode_loop_overflow)
  next
    case True
    show ?thesis
      using Cons.IH [of "push_bit 1 n"] Cons.IH [of "push_bit 1 n + 1"]
      by (subst decode_loop.simps) (simp add: True codec_read_ok)
  qed
qed

text \<open>The loop with its reads returns what the loop returns, and reads below the length.\<close>

lemma decode_loop_reads_result: "fst (decode_loop_reads n inp) = decode_loop n inp"
proof (induction inp arbitrary: n)
  case Nil
  show ?case
    by (subst decode_loop_reads.simps, subst decode_loop.simps) simp
next
  case (Cons ch rest)
  show ?case
    using Cons.IH [of "push_bit 1 n"] Cons.IH [of "push_bit 1 n + 1"]
    by (subst decode_loop_reads.simps, subst decode_loop.simps)
      (simp split: sum.splits)
qed

lemma decode_loop_reads_below:
  "i \<in> set (snd (decode_loop_reads n inp)) \<Longrightarrow> i < MORSE_CODEC_LENGTH"
proof (induction inp arbitrary: n)
  case Nil
  then show ?case
    by (subst (asm) decode_loop_reads.simps) (simp split: if_splits)
next
  case (Cons ch rest)
  from Cons.prems show ?case
    using Cons.IH [of "push_bit 1 n"] Cons.IH [of "push_bit 1 n + 1"]
    by (subst (asm) decode_loop_reads.simps) (auto split: if_splits sum.splits)
qed

section \<open>Facts about the encode loops\<close>

lemmas ev = MORSE_CODEC_LENGTH_32 MORSE_CODEC_bytes symbol_bytes codec_read_def buf_read_def
  buf_write_def morse_reverse_char_array_def SIZE_MAX_def clear_loop.simps find_loop.simps
  symbol_loop.simps reverse_loop.simps

lemma clear_loop_six:
  "clear_loop 0 (b0 # b1 # b2 # b3 # b4 # b5 # rest) = Inr (0 # 0 # 0 # 0 # 0 # 0 # rest)"
  by (simp add: ev)

lemma short_list:
  "length (xs :: 'a list) < 6 \<Longrightarrow>
   xs = [] \<or> (\<exists>a. xs = [a]) \<or> (\<exists>a b. xs = [a, b]) \<or> (\<exists>a b c. xs = [a, b, c])
     \<or> (\<exists>a b c d. xs = [a, b, c, d]) \<or> (\<exists>a b c d e. xs = [a, b, c, d, e])"
  apply (cases xs, simp)
  subgoal for a1 x1 apply (cases x1, simp)
  subgoal for a2 x2 apply (cases x2, simp)
  subgoal for a3 x3 apply (cases x3, simp)
  subgoal for a4 x4 apply (cases x4, simp)
  subgoal for a5 x5 by (cases x5, simp_all)
  done done done done done

lemma long_list:
  "6 \<le> length (xs :: 'a list) \<Longrightarrow>
   \<exists>b0 b1 b2 b3 b4 b5 rest. xs = b0 # b1 # b2 # b3 # b4 # b5 # rest"
  apply (cases xs, simp)
  subgoal for a1 x1 apply (cases x1, simp)
  subgoal for a2 x2 apply (cases x2, simp)
  subgoal for a3 x3 apply (cases x3, simp)
  subgoal for a4 x4 apply (cases x4, simp)
  subgoal for a5 x5 by (cases x5, simp_all)
  done done done done done

lemma clear_loop_short: "length out < 6 \<Longrightarrow> clear_loop 0 out = Inl BufferOutOfBounds"
  using short_list [of out] by (auto simp: ev)

lemma find_loop_cases:
  "find_loop c i p = Inr p \<or>
   (\<exists>r. find_loop c i p = Inr r \<and> r < MORSE_CODEC_LENGTH \<and> codec_read r = Inr c)"
proof (induction c i p rule: find_loop.induct)
  case (1 c i pos)
  show ?case
  proof (cases "i < MORSE_CODEC_LENGTH")
    case False
    then show ?thesis
      by (subst find_loop.simps) simp
  next
    case True
    note rd = codec_read_ok [OF True]
    show ?thesis
    proof (cases "MORSE_CODEC ! unat i = c")
      case True
      have "find_loop c i pos = Inr i"
        by (subst find_loop.simps) (simp add: \<open>i < MORSE_CODEC_LENGTH\<close> rd True)
      with \<open>i < MORSE_CODEC_LENGTH\<close> rd True show ?thesis
        by simp
    next
      case False
      have "find_loop c i pos = find_loop c (i + 1) pos"
        by (subst find_loop.simps) (simp add: True rd False)
      with "1.IH" [OF True rd False] show ?thesis
        by simp
    qed
  qed
qed

text \<open>What the scan finds for a byte that is no letter, and what encode then does.\<close>

lemma find_loop_non_letter:
  assumes "\<not> isupper c"
  shows "find_loop c 0 SIZE_MAX = Inr SIZE_MAX \<or>
         (\<exists>pos. find_loop c 0 SIZE_MAX = Inr pos \<and> codec_read pos = Inr c
                \<and> (c = STAR \<or> c = QUERY))"
proof -
  from find_loop_cases [of c 0 SIZE_MAX] show ?thesis
  proof
    assume "find_loop c 0 SIZE_MAX = Inr SIZE_MAX"
    then show ?thesis by simp
  next
    assume "\<exists>r. find_loop c 0 SIZE_MAX = Inr r \<and> r < MORSE_CODEC_LENGTH \<and> codec_read r = Inr c"
    then obtain r where f: "find_loop c 0 SIZE_MAX = Inr r" and lt: "r < MORSE_CODEC_LENGTH"
      and rd: "codec_read r = Inr c"
      by blast
    from rd codec_read_ok [OF lt] have "MORSE_CODEC ! unat r = c"
      by simp
    with table_entry [OF lt] assms have "c = STAR \<or> c = QUERY"
      by simp
    with f rd show ?thesis
      by blast
  qed
qed

lemma encode_non_letter:
  assumes "\<not> isupper c"
  shows "morse_encode c (b0 # b1 # b2 # b3 # b4 # b5 # rest)
           = Inr (- 1, 0 # 0 # 0 # 0 # 0 # 0 # rest)"
  using find_loop_non_letter [OF assms]
  by (auto simp add: morse_encode_def clear_loop_six)

text \<open>The code word of every letter, in a buffer of six bytes or more.\<close>

lemma encode_letters:
  "morse_encode 0x41 (b0 # b1 # b2 # b3 # b4 # b5 # rest) =
     Inr (0, 0x2E # 0x2D # 0 # 0 # 0 # 0 # rest)"
  "morse_encode 0x42 (b0 # b1 # b2 # b3 # b4 # b5 # rest) =
     Inr (0, 0x2D # 0x2E # 0x2E # 0x2E # 0 # 0 # rest)"
  "morse_encode 0x43 (b0 # b1 # b2 # b3 # b4 # b5 # rest) =
     Inr (0, 0x2D # 0x2E # 0x2D # 0x2E # 0 # 0 # rest)"
  "morse_encode 0x44 (b0 # b1 # b2 # b3 # b4 # b5 # rest) =
     Inr (0, 0x2D # 0x2E # 0x2E # 0 # 0 # 0 # rest)"
  "morse_encode 0x45 (b0 # b1 # b2 # b3 # b4 # b5 # rest) =
     Inr (0, 0x2E # 0 # 0 # 0 # 0 # 0 # rest)"
  "morse_encode 0x46 (b0 # b1 # b2 # b3 # b4 # b5 # rest) =
     Inr (0, 0x2E # 0x2E # 0x2D # 0x2E # 0 # 0 # rest)"
  "morse_encode 0x47 (b0 # b1 # b2 # b3 # b4 # b5 # rest) =
     Inr (0, 0x2D # 0x2D # 0x2E # 0 # 0 # 0 # rest)"
  "morse_encode 0x48 (b0 # b1 # b2 # b3 # b4 # b5 # rest) =
     Inr (0, 0x2E # 0x2E # 0x2E # 0x2E # 0 # 0 # rest)"
  "morse_encode 0x49 (b0 # b1 # b2 # b3 # b4 # b5 # rest) =
     Inr (0, 0x2E # 0x2E # 0 # 0 # 0 # 0 # rest)"
  "morse_encode 0x4A (b0 # b1 # b2 # b3 # b4 # b5 # rest) =
     Inr (0, 0x2E # 0x2D # 0x2D # 0x2D # 0 # 0 # rest)"
  "morse_encode 0x4B (b0 # b1 # b2 # b3 # b4 # b5 # rest) =
     Inr (0, 0x2D # 0x2E # 0x2D # 0 # 0 # 0 # rest)"
  "morse_encode 0x4C (b0 # b1 # b2 # b3 # b4 # b5 # rest) =
     Inr (0, 0x2E # 0x2D # 0x2E # 0x2E # 0 # 0 # rest)"
  "morse_encode 0x4D (b0 # b1 # b2 # b3 # b4 # b5 # rest) =
     Inr (0, 0x2D # 0x2D # 0 # 0 # 0 # 0 # rest)"
  "morse_encode 0x4E (b0 # b1 # b2 # b3 # b4 # b5 # rest) =
     Inr (0, 0x2D # 0x2E # 0 # 0 # 0 # 0 # rest)"
  "morse_encode 0x4F (b0 # b1 # b2 # b3 # b4 # b5 # rest) =
     Inr (0, 0x2D # 0x2D # 0x2D # 0 # 0 # 0 # rest)"
  "morse_encode 0x50 (b0 # b1 # b2 # b3 # b4 # b5 # rest) =
     Inr (0, 0x2E # 0x2D # 0x2D # 0x2E # 0 # 0 # rest)"
  "morse_encode 0x51 (b0 # b1 # b2 # b3 # b4 # b5 # rest) =
     Inr (0, 0x2D # 0x2D # 0x2E # 0x2D # 0 # 0 # rest)"
  "morse_encode 0x52 (b0 # b1 # b2 # b3 # b4 # b5 # rest) =
     Inr (0, 0x2E # 0x2D # 0x2E # 0 # 0 # 0 # rest)"
  "morse_encode 0x53 (b0 # b1 # b2 # b3 # b4 # b5 # rest) =
     Inr (0, 0x2E # 0x2E # 0x2E # 0 # 0 # 0 # rest)"
  "morse_encode 0x54 (b0 # b1 # b2 # b3 # b4 # b5 # rest) =
     Inr (0, 0x2D # 0 # 0 # 0 # 0 # 0 # rest)"
  "morse_encode 0x55 (b0 # b1 # b2 # b3 # b4 # b5 # rest) =
     Inr (0, 0x2E # 0x2E # 0x2D # 0 # 0 # 0 # rest)"
  "morse_encode 0x56 (b0 # b1 # b2 # b3 # b4 # b5 # rest) =
     Inr (0, 0x2E # 0x2E # 0x2E # 0x2D # 0 # 0 # rest)"
  "morse_encode 0x57 (b0 # b1 # b2 # b3 # b4 # b5 # rest) =
     Inr (0, 0x2E # 0x2D # 0x2D # 0 # 0 # 0 # rest)"
  "morse_encode 0x58 (b0 # b1 # b2 # b3 # b4 # b5 # rest) =
     Inr (0, 0x2D # 0x2E # 0x2E # 0x2D # 0 # 0 # rest)"
  "morse_encode 0x59 (b0 # b1 # b2 # b3 # b4 # b5 # rest) =
     Inr (0, 0x2D # 0x2E # 0x2D # 0x2D # 0 # 0 # rest)"
  "morse_encode 0x5A (b0 # b1 # b2 # b3 # b4 # b5 # rest) =
     Inr (0, 0x2D # 0x2D # 0x2E # 0x2E # 0 # 0 # rest)"
  unfolding morse_encode_def clear_loop_six
  by (simp_all add: ev)

lemma decode_step:
  "n < 32 \<Longrightarrow> decode_loop n (0x2E # rest) = decode_loop (push_bit 1 n) rest"
  "n < 32 \<Longrightarrow> decode_loop n (0x2D # rest) = decode_loop (push_bit 1 n + 1) rest"
  "n < 32 \<Longrightarrow> decode_loop n (0 # rest) = Inr (uint (MORSE_CODEC ! unat n))"
  using decode_loop_dot [of n rest] decode_loop_dash [of n rest] decode_loop_end [of n rest]
  by (simp_all add: MORSE_CODEC_LENGTH_32 symbol_bytes)

lemma replicate_small:
  "replicate 2 x = [x, x]" "replicate 3 x = [x, x, x]" "replicate 4 x = [x, x, x, x]"
  "replicate 5 x = [x, x, x, x, x]"
  by (simp_all add: numeral_eq_Suc)

section \<open>The self-test\<close>

text \<open>\<^verbatim>\<open>morse_tests\<close> passes: all 26 letters survive encoding and decoding.\<close>

lemma morse_tests_pass: "morse_tests = Inr 0"
  unfolding morse_tests_def
  by (simp add: tests_loop.simps replicate6 encode_letters morse_decode_def decode_step
      MORSE_CODEC_bytes)

section \<open>Claims about morse_decode\<close>

text \<open>
  C6: decoding the empty code word, an input that starts with the end marker, succeeds
  and returns the table entry at tree index 1, which is the sentinel \<open>*\<close>.
\<close>

theorem decode_empty_is_star:
  "morse_decode [0] = Inr (uint STAR) \<and> morse_decode (0 # rest) = Inr (uint STAR)
     \<and> codec_read 1 = Inr STAR \<and> uint STAR \<noteq> - 1"
  by (simp add: morse_decode_def decode_loop_end MORSE_CODEC_LENGTH_32 codec_read_def
      MORSE_CODEC_bytes symbol_bytes)

text \<open>
  C5: decoding six or more DOTs succeeds and returns the sentinel \<open>?\<close>, whatever
  comes after them.
\<close>

theorem decode_six_dots_is_query:
  assumes "6 \<le> k"
  shows "morse_decode (replicate k MORSE_DOT @ 0 # rest) = Inr (uint QUERY)"
proof -
  from assms obtain m where "k = 5 + m"
    using le_Suc_ex [of 5 k] by auto
  then have "replicate k MORSE_DOT =
      [MORSE_DOT, MORSE_DOT, MORSE_DOT, MORSE_DOT, MORSE_DOT] @ replicate m MORSE_DOT"
    by (simp add: replicate_add numeral_eq_Suc)
  then show ?thesis
    by (simp add: morse_decode_def dots5)
qed

theorem decode_six_dots_is_query_witness:
  "(6 :: nat) \<le> 6 \<and> morse_decode (map of_char ''......'' @ [0]) = Inr 63"
  using decode_six_dots_is_query [of 6 "[]"]
  by (simp add: symbol_bytes replicate6)

text \<open>
  C2, as stated, fails: after five symbols the loop guard ends the scan, so a byte that
  is no symbol in sixth place or later is never read, and the result is \<open>?\<close>.
\<close>

theorem decode_bad_symbol_counterexample:
  "of_char CHR ''x'' \<notin> {MORSE_DOT, MORSE_DASH, 0}
     \<and> morse_decode (map of_char ''.....x'' @ [0]) = Inr (uint QUERY)
     \<and> morse_decode (map of_char ''.....x'' @ [0]) \<noteq> Inr (- 1)"
  using dots5 [of "[0x78, 0]"]
  by (simp add: morse_decode_def symbol_bytes)

text \<open>
  C2, amended: when the first byte that is neither DOT, DASH nor the end marker comes
  after fewer than five symbols, decode returns \<open>-1\<close>, whatever follows that byte;
  when five or more symbols come before it, decode returns \<open>?\<close>.
\<close>

theorem decode_first_bad_symbol:
  assumes "set pre \<subseteq> {MORSE_DOT, MORSE_DASH}"
    and "b \<notin> {MORSE_DOT, MORSE_DASH, 0}"
  shows "morse_decode (pre @ b # rest) =
           (if length pre < 5 then Inr (- 1) else Inr (uint QUERY))"
proof (cases "length pre < 5")
  case True
  then have "(2 :: nat) ^ length pre \<le> 2 ^ 4"
    by (intro power_increasing) simp_all
  then have "(unat (1 :: size_t) + 1) * 2 ^ length pre \<le> 32"
    by simp
  from decode_loop_rejects [OF this assms(1)] assms(2) True show ?thesis
    by (simp add: morse_decode_def)
next
  case False
  then have "(2 :: nat) ^ 5 \<le> 2 ^ length pre"
    by (intro power_increasing) simp_all
  then have "32 \<le> unat (1 :: size_t) * 2 ^ length pre"
    by simp
  from decode_loop_leaves_table [OF this assms(1)] False show ?thesis
    by (simp add: morse_decode_def)
qed

theorem decode_first_bad_symbol_witness:
  "set (map of_char ''.-'') \<subseteq> {MORSE_DOT, MORSE_DASH}
     \<and> of_char CHR ''x'' \<notin> {MORSE_DOT, MORSE_DASH, 0}
     \<and> morse_decode (map of_char ''.-x--'' @ [0]) = Inr (- 1)"
  using decode_first_bad_symbol
      [of "map of_char ''.-''" "of_char CHR ''x''" "map of_char ''--'' @ [0]"]
  by (simp add: symbol_bytes)

text \<open>
  C8: for any input, and from any starting index of the loop, every index at which
  decode reads the table is below \<^verbatim>\<open>MORSE_CODEC_LENGTH\<close>, the value the loop guard
  has checked it against, so the read is one of the 32 table entries and never the
  terminating NUL or a byte past it.
\<close>

theorem decode_reads_table_in_bounds:
  "fst (decode_loop_reads 1 inp) = morse_decode inp
     \<and> (\<forall>i \<in> set (snd (decode_loop_reads 1 inp)).
           i < MORSE_CODEC_LENGTH \<and> unat i < 32 \<and> codec_read i = Inr (MORSE_CODEC ! unat i))
     \<and> fst (decode_loop_reads n inp) = decode_loop n inp
     \<and> (\<forall>i \<in> set (snd (decode_loop_reads n inp)). i < MORSE_CODEC_LENGTH)
     \<and> morse_decode inp \<noteq> Inl TableOutOfBounds \<and> decode_loop n inp \<noteq> Inl TableOutOfBounds"
  using decode_loop_reads_below codec_read_ok
  by (auto simp add: morse_decode_def decode_loop_reads_result decode_loop_no_table_fault
      MORSE_CODEC_LENGTH_32 lt32)

theorem decode_reads_table_in_bounds_witness:
  "snd (decode_loop_reads 1 (map of_char ''.-'' @ [0])) = [5]
     \<and> (5 :: size_t) \<in> set (snd (decode_loop_reads 1 (map of_char ''.-'' @ [0])))
     \<and> (5 :: size_t) < MORSE_CODEC_LENGTH
     \<and> morse_decode (map of_char ''.-'' @ [0]) = Inr (uint (MORSE_CODEC ! 5))"
proof -
  have r: "decode_loop_reads 1 (map of_char ''.-'' @ [0]) = (Inr 65, [5])"
    by (simp add: decode_loop_reads.simps symbol_bytes MORSE_CODEC_LENGTH_32 codec_read_def
        MORSE_CODEC_bytes)
  then have m: "(5 :: size_t) \<in> set (snd (decode_loop_reads 1 (map of_char ''.-'' @ [0])))"
    by simp
  from decode_reads_table_in_bounds [of "map of_char ''.-'' @ [0]" 1]
  have a: "fst (decode_loop_reads 1 (map of_char ''.-'' @ [0])) = morse_decode (map of_char ''.-'' @ [0])"
    and b: "\<forall>i \<in> set (snd (decode_loop_reads 1 (map of_char ''.-'' @ [0]))).
           i < MORSE_CODEC_LENGTH \<and> unat i < 32 \<and> codec_read i = Inr (MORSE_CODEC ! unat i)"
    by blast+
  from b m have "(5 :: size_t) < MORSE_CODEC_LENGTH"
    by blast
  with a r m show ?thesis
    by (simp add: MORSE_CODEC_bytes)
qed

section \<open>Claims about morse_encode\<close>

text \<open>
  C1: for every letter A to Z, encode succeeds, and decode of the code word it leaves
  in the buffer returns the letter.
\<close>

theorem encode_decode_roundtrip:
  assumes "isupper c" and "6 \<le> length out"
  shows "\<exists>buf. morse_encode c out = Inr (0, buf) \<and> morse_decode buf = Inr (uint c)"
proof -
  from long_list [OF assms(2)] obtain b0 b1 b2 b3 b4 b5 rest
    where out: "out = b0 # b1 # b2 # b3 # b4 # b5 # rest"
    by blast
  from isupper_cases [OF assms(1)] show ?thesis
    unfolding out
    by (elim insertE emptyE)
      (simp_all add: encode_letters morse_decode_def decode_step MORSE_CODEC_bytes)
qed

theorem encode_decode_roundtrip_witness:
  "isupper (of_char CHR ''Q'') \<and> 6 \<le> length (replicate 6 (0 :: uchar))
     \<and> (\<exists>buf. morse_encode (of_char CHR ''Q'') (replicate 6 0) = Inr (0, buf)
            \<and> morse_decode buf = Inr (uint (of_char CHR ''Q'' :: uchar)))"
  using encode_decode_roundtrip [of "of_char CHR ''Q''" "replicate 6 0"]
  by (simp add: isupper_def)

text \<open>
  C4: for every byte that is not a letter A to Z, the sentinels included, encode
  returns \<open>-1\<close>: the scan either finds the byte nowhere in the table or finds it
  where the table holds a sentinel.
\<close>

theorem encode_rejects_non_letters:
  assumes "\<not> isupper c" and "6 \<le> length out"
  shows "(\<exists>buf. morse_encode c out = Inr (- 1, buf))
         \<and> (find_loop c 0 SIZE_MAX = Inr SIZE_MAX \<or>
            (\<exists>pos. find_loop c 0 SIZE_MAX = Inr pos
                 \<and> (codec_read pos = Inr STAR \<or> codec_read pos = Inr QUERY)))"
proof -
  from long_list [OF assms(2)] obtain b0 b1 b2 b3 b4 b5 rest
    where out: "out = b0 # b1 # b2 # b3 # b4 # b5 # rest"
    by blast
  have "\<exists>buf. morse_encode c out = Inr (- 1, buf)"
    unfolding out using encode_non_letter [OF assms(1)] by blast
  moreover from find_loop_non_letter [OF assms(1)]
  have "find_loop c 0 SIZE_MAX = Inr SIZE_MAX \<or>
        (\<exists>pos. find_loop c 0 SIZE_MAX = Inr pos
             \<and> (codec_read pos = Inr STAR \<or> codec_read pos = Inr QUERY))"
    by auto
  ultimately show ?thesis
    by blast
qed

theorem encode_rejects_non_letters_witness:
  "\<not> isupper STAR \<and> \<not> isupper QUERY \<and> 6 \<le> length (replicate 6 (0 :: uchar))
     \<and> (\<exists>buf. morse_encode STAR (replicate 6 0) = Inr (- 1, buf))
     \<and> (\<exists>buf. morse_encode QUERY (replicate 6 0) = Inr (- 1, buf))"
  using encode_rejects_non_letters [of STAR "replicate 6 0"]
    encode_rejects_non_letters [of QUERY "replicate 6 0"]
  by (simp add: isupper_def symbol_bytes)

text \<open>
  C10: whenever encode returns a negative value, the six bytes of the caller's buffer
  are all zero, and the bytes after them are as they were.
\<close>

theorem encode_failure_zeroes_buffer:
  assumes "morse_encode c out = Inr (r, buf)" and "r < 0"
  shows "take 6 buf = replicate 6 0 \<and> drop 6 buf = drop 6 out \<and> 6 \<le> length out"
proof -
  have "\<not> length out < 6"
  proof
    assume "length out < 6"
    from clear_loop_short [OF this] assms(1) show False
      by (simp add: morse_encode_def)
  qed
  then have "6 \<le> length out"
    by simp
  from long_list [OF this] obtain b0 b1 b2 b3 b4 b5 rest
    where out: "out = b0 # b1 # b2 # b3 # b4 # b5 # rest"
    by blast
  from assms have "buf = 0 # 0 # 0 # 0 # 0 # 0 # rest"
    unfolding out morse_encode_def clear_loop_six
    by (auto split: sum.splits if_splits prod.splits)
  then show ?thesis
    by (simp add: out replicate6)
qed

theorem encode_failure_zeroes_buffer_witness:
  "morse_encode (of_char CHR ''a'') [1, 2, 3, 4, 5, 6, 7] = Inr (- 1, [0, 0, 0, 0, 0, 0, 7])
     \<and> (- 1 :: int) < 0 \<and> take 6 [0, 0, 0, 0, 0, 0, 7 :: uchar] = replicate 6 0"
  using encode_failure_zeroes_buffer [of "of_char CHR ''a''" "[1, 2, 3, 4, 5, 6, 7]" "- 1"
      "[0, 0, 0, 0, 0, 0, 7]"]
    encode_non_letter [of "of_char CHR ''a''" 1 2 3 4 5 6 "[7]"]
  by (simp add: isupper_def)

text \<open>
  C7: for a buffer of six bytes or more, encode never writes outside the buffer and
  leaves every byte after the first six as it was; when it succeeds, the first six
  bytes are a code word of at most five DOT/DASH symbols followed by NULs, the first of
  which is the end marker.
\<close>

theorem encode_code_word_bounded:
  assumes "6 \<le> length out"
  shows "\<exists>r buf. morse_encode c out = Inr (r, buf) \<and> length buf = length out
            \<and> drop 6 buf = drop 6 out
            \<and> (r = 0 \<longrightarrow> (\<exists>w. c_string buf = Inr w \<and> length w \<le> 5
                   \<and> set w \<subseteq> {MORSE_DOT, MORSE_DASH}
                   \<and> take 6 buf = w @ replicate (6 - length w) 0))"
proof -
  from long_list [OF assms] obtain b0 b1 b2 b3 b4 b5 rest
    where out: "out = b0 # b1 # b2 # b3 # b4 # b5 # rest"
    by blast
  show ?thesis
  proof (cases "isupper c")
    case False
    from encode_non_letter [OF this] show ?thesis
      unfolding out by simp
  next
    case True
    from isupper_cases [OF this] show ?thesis
      unfolding out
      by (elim insertE emptyE)
        (simp_all add: encode_letters c_string_def symbol_bytes replicate_small)
  qed
qed

theorem encode_code_word_bounded_witness:
  "6 \<le> length [1, 2, 3, 4, 5, 6, 7 :: uchar]
     \<and> morse_encode (of_char CHR ''Q'') [1, 2, 3, 4, 5, 6, 7]
         = Inr (0, map of_char ''--.-'' @ [0, 0, 7])
     \<and> c_string (map of_char ''--.-'' @ [0, 0, 7]) = Inr (map of_char ''--.-'')"
  using encode_code_word_bounded [of "[1, 2, 3, 4, 5, 6, 7]" "of_char CHR ''Q''"]
  by (simp add: encode_letters c_string_def)

section \<open>Claims about the code table\<close>

text \<open>
  C3, as stated, fails: the table has 32 characters, not 33.  It takes 33 bytes only
  with the NUL that ends the string literal, and that byte, at index 32, is neither a
  sentinel nor a letter.
\<close>

theorem code_table_size_counterexample:
  "unat MORSE_CODEC_LENGTH \<noteq> 33 \<and> length MORSE_CODEC = 33
     \<and> \<not> (MORSE_CODEC ! 32 = STAR \<or> MORSE_CODEC ! 32 = QUERY \<or> isupper (MORSE_CODEC ! 32))"
  by (simp add: MORSE_CODEC_LENGTH_32 MORSE_CODEC_bytes symbol_bytes isupper_def)

lemma letters_once:
  assumes "isupper c"
  shows "count_list (take 32 MORSE_CODEC) c = 1"
  using isupper_cases [OF assms]
  by (elim insertE emptyE) (simp_all add: MORSE_CODEC_bytes)

lemma tree_children:
  assumes "n < 16"
  shows "decode_loop n (MORSE_DOT # 0 # rest) = Inr (uint (MORSE_CODEC ! (2 * unat n)))"
    and "decode_loop n (MORSE_DASH # 0 # rest) = Inr (uint (MORSE_CODEC ! (2 * unat n + 1)))"
proof -
  from assms have u: "unat n < 16"
    by (simp add: word_less_nat_alt)
  then have lt: "n < MORSE_CODEC_LENGTH" and u32: "unat n < 32"
    by (simp_all add: MORSE_CODEC_LENGTH_32 lt32)
  from u have "push_bit 1 n < MORSE_CODEC_LENGTH" "push_bit 1 n + 1 < MORSE_CODEC_LENGTH"
    unfolding MORSE_CODEC_LENGTH_32 lt32 unat_dot [OF u32] unat_dash [OF u32] by simp_all
  then show "decode_loop n (MORSE_DOT # 0 # rest) = Inr (uint (MORSE_CODEC ! (2 * unat n)))"
    and "decode_loop n (MORSE_DASH # 0 # rest) = Inr (uint (MORSE_CODEC ! (2 * unat n + 1)))"
    by (simp_all only: decode_loop_dot [OF lt] decode_loop_dash [OF lt] decode_loop_end
        unat_dot [OF u32] unat_dash [OF u32])
qed

text \<open>
  C3, amended: the table is a constant of 32 characters, indexed 0 to 31 and stored in
  33 bytes with the terminating NUL at index 32.  Each of the 32 characters is a
  sentinel or a letter A to Z, and each letter occurs exactly once.  Index 0 holds
  \<open>*\<close>, the walk of decode starts at index 1, and from an index \<open>n\<close> below 16 a DOT
  leads to the entry at \<open>2 * n\<close> and a DASH to the entry at \<open>2 * n + 1\<close>.
\<close>

theorem code_table_layout:
  "length MORSE_CODEC = 33 \<and> MORSE_CODEC ! 32 = 0 \<and> unat MORSE_CODEC_LENGTH = 32
     \<and> (\<forall>i<32. MORSE_CODEC ! i = STAR \<or> MORSE_CODEC ! i = QUERY \<or> isupper (MORSE_CODEC ! i))
     \<and> (\<forall>c. isupper c \<longrightarrow> count_list (take 32 MORSE_CODEC) c = 1)
     \<and> MORSE_CODEC ! 0 = STAR
     \<and> morse_decode (0 # rest) = Inr (uint (MORSE_CODEC ! 1))
     \<and> (\<forall>n. n < 16 \<longrightarrow>
           decode_loop n (MORSE_DOT # 0 # rest) = Inr (uint (MORSE_CODEC ! (2 * unat n)))
           \<and> decode_loop n (MORSE_DASH # 0 # rest) = Inr (uint (MORSE_CODEC ! (2 * unat n + 1))))"
proof -
  have "\<forall>i<32. MORSE_CODEC ! i = STAR \<or> MORSE_CODEC ! i = QUERY \<or> isupper (MORSE_CODEC ! i)"
  proof (intro allI impI)
    fix i :: nat
    assume i: "i < 32"
    have "length (take 32 MORSE_CODEC) = 32"
      by (simp add: MORSE_CODEC_bytes)
    with i table_entries
    have "(\<lambda>e. e = STAR \<or> e = QUERY \<or> isupper e) (take 32 MORSE_CODEC ! i)"
      by (simp only: list_all_length)
    with i show "MORSE_CODEC ! i = STAR \<or> MORSE_CODEC ! i = QUERY \<or> isupper (MORSE_CODEC ! i)"
      by simp
  qed
  moreover have "length MORSE_CODEC = 33" "MORSE_CODEC ! 32 = 0" "unat MORSE_CODEC_LENGTH = 32"
    "MORSE_CODEC ! 0 = STAR"
    by (simp_all add: MORSE_CODEC_bytes MORSE_CODEC_LENGTH_32 symbol_bytes)
  moreover have "morse_decode (0 # rest) = Inr (uint (MORSE_CODEC ! 1))"
    by (simp add: morse_decode_def decode_loop_end MORSE_CODEC_LENGTH_32)
  ultimately show ?thesis
    using letters_once tree_children by simp
qed

theorem code_table_layout_witness:
  "(5 :: nat) < 32 \<and> isupper (MORSE_CODEC ! 5) \<and> isupper (of_char CHR ''A'')
     \<and> count_list (take 32 MORSE_CODEC) (of_char CHR ''A'') = 1
     \<and> (2 :: size_t) < 16
     \<and> decode_loop 2 [MORSE_DOT, 0] = Inr (uint (MORSE_CODEC ! 4))
     \<and> decode_loop 2 [MORSE_DASH, 0] = Inr (uint (MORSE_CODEC ! 5))"
proof -
  have up: "isupper (of_char CHR ''A'')"
    by (simp add: isupper_def)
  have lt: "(2 :: size_t) < 16"
    by simp
  from code_table_layout [of "[]"]
  have a: "\<forall>c. isupper c \<longrightarrow> count_list (take 32 MORSE_CODEC) c = 1"
    and b: "\<forall>n. n < 16 \<longrightarrow>
           decode_loop n [MORSE_DOT, 0] = Inr (uint (MORSE_CODEC ! (2 * unat n)))
           \<and> decode_loop n [MORSE_DASH, 0] = Inr (uint (MORSE_CODEC ! (2 * unat n + 1)))"
    and c: "\<forall>i<32. MORSE_CODEC ! i = STAR \<or> MORSE_CODEC ! i = QUERY \<or> isupper (MORSE_CODEC ! i)"
    by blast+
  from c have "MORSE_CODEC ! 5 = STAR \<or> MORSE_CODEC ! 5 = QUERY \<or> isupper (MORSE_CODEC ! 5)"
    by simp
  then have "isupper (MORSE_CODEC ! 5)"
    by (simp add: MORSE_CODEC_bytes symbol_bytes)
  with a [rule_format, OF up] b [rule_format, OF lt] up show ?thesis
    by simp
qed

section \<open>Claims about the command line\<close>

lemma decode_string_total: "\<exists>v. decode_loop n (a @ [0]) = Inr v"
proof (induction a arbitrary: n)
  case Nil
  show ?case
    by (cases "n < MORSE_CODEC_LENGTH") (simp_all add: decode_loop_end decode_loop_overflow)
next
  case (Cons ch rest)
  show ?case
  proof (cases "n < MORSE_CODEC_LENGTH")
    case False
    then show ?thesis
      by (simp add: decode_loop_overflow)
  next
    case True
    show ?thesis
      using Cons.IH [of "push_bit 1 n"] Cons.IH [of "push_bit 1 n + 1"]
      by (subst decode_loop.simps) (auto simp add: True codec_read_ok)
  qed
qed

lemma decode_operands_exit_0:
  "\<not> failed out \<Longrightarrow> \<exists>out'. decode_operands ops out = Inr (0, out') \<and> \<not> failed out'"
proof (induction ops arbitrary: out)
  case Nil
  then show ?case
    by (simp add: fprintf_def)
next
  case (Cons a ops)
  from decode_string_total [of 1 a] obtain v where v: "morse_decode (a @ [0]) = Inr v"
    by (auto simp add: morse_decode_def)
  from Cons.prems have "\<not> failed (out\<lparr>written := written out @ [of_int v]\<rparr>)"
    by simp
  from Cons.IH [OF this] Cons.prems show ?case
    by (simp add: v fprintf_def)
qed

lemma main_encode_failure_exit_6:
  "main [map of_char ''morse'', map of_char ''encode'', map of_char ''a1'']
       \<lparr>written = [], failed = False\<rparr>
     = Inr (6, \<lparr>written = map of_char ''.- '', failed = False\<rparr>)"
  by (simp add: main_def morse_tests_pass fprintf_def toupper_def replicate6 encode_letters
      encode_non_letter isupper_def c_string_def)

text \<open>
  C9: the claim says that a failing decode aborts the invocation with a non-zero
  status.  The code does not: for the operands \<open>x\<close> and \<open>.-\<close> it prints the byte
  \<open>0xFF\<close> for the failure, decodes the next operand to \<open>A\<close>, and exits with status 0.
\<close>

theorem main_decode_failure_exit_0:
  "morse_decode (map of_char ''x'' @ [0]) = Inr (- 1)
     \<and> main [map of_char ''morse'', map of_char ''decode'', map of_char ''x'', map of_char ''.-'']
          \<lparr>written = [], failed = False\<rparr>
        = Inr (0, \<lparr>written = [0xFF, of_char CHR ''A'', 0x0A], failed = False\<rparr>)"
  by (simp add: main_def morse_tests_pass fprintf_def morse_decode_def decode_step
      decode_loop_bad MORSE_CODEC_LENGTH_32 symbol_bytes MORSE_CODEC_bytes)

end
